theory Spec2Isabelle
  imports Complex_Main
begin

section \<open>Python strings\<close>

text \<open>
  A Python \<open>str\<close> is a sequence of Unicode code points. A code point is modelled as a
  natural number and a string as the list of its code points, so that the whitespace
  class of the \<open>re\<close> module and of \<open>str.strip\<close> (which reaches beyond Latin-1) is
  the one the program sees. \<open>py\<close> turns an ASCII literal into such a string.
\<close>

type_synonym pystr = "nat list"

definition py :: "string \<Rightarrow> pystr" where
  "py s = map of_char s"

text \<open>
  \<open>\s\<close> in a \<open>str\<close> pattern and \<open>str.strip()\<close> both use the Unicode whitespace test:
  U+0009..U+000D, U+001C..U+0020, U+0085, U+00A0, U+1680, U+2000..U+200A, U+2028,
  U+2029, U+202F, U+205F, U+3000.
\<close>

definition isspace :: "nat \<Rightarrow> bool" where
  "isspace c \<longleftrightarrow>
     (9 \<le> c \<and> c \<le> 13) \<or> (28 \<le> c \<and> c \<le> 32) \<or> c = 133 \<or> c = 160 \<or> c = 5760 \<or>
     (8192 \<le> c \<and> c \<le> 8202) \<or> c = 8232 \<or> c = 8233 \<or> c = 8239 \<or> c = 8287 \<or>
     c = 12288"

text \<open>The character class \<open>[a-zA-Z0-9\s.,;:()\-]\<close> of the third substitution.\<close>

definition allowed :: "nat \<Rightarrow> bool" where
  "allowed c \<longleftrightarrow>
     (97 \<le> c \<and> c \<le> 122) \<or> (65 \<le> c \<and> c \<le> 90) \<or> (48 \<le> c \<and> c \<le> 57) \<or> isspace c \<or>
     c = 46 \<or> c = 44 \<or> c = 59 \<or> c = 58 \<or> c = 40 \<or> c = 41 \<or> c = 45"

section \<open>\<open>PaperExtractor.clean_text\<close>\<close>

text \<open>
  \<open>re.sub(r'<[^>]+>', '', text)\<close>: scanning from the left, a \<open><\<close> (code 60) starts a
  match when it is followed by at least one character other than \<open>>\<close> (code 62) and then
  a \<open>>\<close>; the class \<open>[^>]\<close> also takes \<open><\<close> and newlines, and the run up to the next
  \<open>>\<close> is the only candidate. A match is deleted and the scan resumes behind it;
  otherwise the character is kept.
\<close>

function remove_tags :: "pystr \<Rightarrow> pystr" where
  "remove_tags [] = []"
| "remove_tags (c # cs) =
     (if c = 60 \<and> takeWhile (\<lambda>x. x \<noteq> 62) cs \<noteq> [] \<and> dropWhile (\<lambda>x. x \<noteq> 62) cs \<noteq> []
      then remove_tags (tl (dropWhile (\<lambda>x. x \<noteq> 62) cs))
      else c # remove_tags cs)"
  by pat_completeness auto
termination
  by (relation "measure length")
     (auto simp: less_Suc_eq_le intro: le_trans [OF diff_le_self length_dropWhile_le])

text \<open>\<open>re.sub(r'\s+', ' ', text)\<close>: every maximal run of whitespace becomes one space (code 32).\<close>

function collapse_ws :: "pystr \<Rightarrow> pystr" where
  "collapse_ws [] = []"
| "collapse_ws (c # cs) =
     (if isspace c then 32 # collapse_ws (dropWhile isspace cs) else c # collapse_ws cs)"
  by pat_completeness auto
termination
  by (relation "measure length") (auto simp: less_Suc_eq_le length_dropWhile_le)

text \<open>\<open>re.sub(r'[^a-zA-Z0-9\s.,;:()\-]', '', text)\<close>.\<close>

definition remove_special :: "pystr \<Rightarrow> pystr" where
  "remove_special t = filter allowed t"

text \<open>\<open>text.strip()\<close>.\<close>

definition strip :: "pystr \<Rightarrow> pystr" where
  "strip t = rev (dropWhile isspace (rev (dropWhile isspace t)))"

text \<open>
  The argument is \<open>None\<close> or a string; \<open>not text\<close> holds for \<open>None\<close> and for the empty
  string.
\<close>

definition clean_text :: "pystr option \<Rightarrow> pystr" where
  "clean_text text =
     (case text of
        None \<Rightarrow> []
      | Some t \<Rightarrow>
          if t = [] then []
          else strip (remove_special (collapse_ws (remove_tags t))))"

text \<open>Two neighbouring spaces somewhere in the string.\<close>

fun adjacent_spaces :: "pystr \<Rightarrow> bool" where
  "adjacent_spaces (a # b # cs) = ((a = 32 \<and> b = 32) \<or> adjacent_spaces (b # cs))"
| "adjacent_spaces _ = False"

text \<open>
  The shape of every result of \<open>clean_text\<close>: characters of the allowed class only, no
  whitespace but the space, and no whitespace at either end.
\<close>

definition normal_form :: "pystr \<Rightarrow> bool" where
  "normal_form t \<longleftrightarrow>
     list_all (\<lambda>c. allowed c \<and> (isspace c \<longrightarrow> c = 32)) t \<and>
     (t \<noteq> [] \<longrightarrow> \<not> isspace (hd t) \<and> \<not> isspace (last t))"

section \<open>Values of the environment\<close>

text \<open>
  A cell of a pandas column of strings holds a string or \<open>NaN\<close> (a blank field of the
  spreadsheet or of the checkpoint file, or a row without a match in a left join).
  \<open>NaN\<close> is a float: \<open>bool(nan)\<close> is \<open>True\<close>, \<open>notna\<close> is \<open>False\<close> and
  \<open>str(nan)\<close> is \<open>'nan'\<close>.
\<close>

datatype cell = NaN | Str pystr

fun truthy :: "cell \<Rightarrow> bool" where
  "truthy NaN = True"
| "truthy (Str s) = (s \<noteq> [])"

fun notna :: "cell \<Rightarrow> bool" where
  "notna NaN = False"
| "notna (Str s) = True"

fun str_of :: "cell \<Rightarrow> pystr" where
  "str_of NaN = py ''nan''"
| "str_of (Str s) = s"

text \<open>The exceptions that the calls of the program can raise (all subclasses of \<open>Exception\<close>).\<close>

datatype exn =
    ConnectionError | Timeout | MissingSchema | HTTPError nat
  | JSONDecodeError | AttributeError | TypeError | OSError

text \<open>
  A parsed HTML document as \<open>BeautifulSoup\<close> holds it: a tag has a name, its list of
  classes (the multi-valued \<open>class\<close> attribute), its other attributes and its
  contents; a text node is a \<open>NavigableString\<close>.
\<close>

datatype node =
    Tag pystr "pystr list" "(pystr \<times> pystr) list" "node list"
  | NavigableString pystr

text \<open>A decoded JSON value (\<open>response.json()\<close>).\<close>

datatype json =
    JNull | JBool bool | JNum rat | JStr pystr
  | JArray "json list" | JObject "(pystr \<times> json) list"

datatype status = Failed | Success_Scopus | Success_DOI

datatype level = DEBUG | INFO | WARNING | ERROR

datatype message =
    Scopus_error pystr exn
  | CrossRef_failed pystr exn
  | Paper_status nat nat status
  | Paper_failed nat nat
  | Checkpoint_saved nat
  | Processing_error nat exn

text \<open>A checkpoint file: its rows of fields \<open>Link\<close>, \<open>Abstract\<close>, \<open>Keywords\<close>.\<close>

type_synonym csv = "(pystr \<times> pystr \<times> pystr) list"

text \<open>
  What a run does to the outside, in order: \<open>session.get(url, timeout)\<close>, a logging call,
  the call \<open>extractor.process_paper(df.iloc[i])\<close>, the call \<open>to_csv\<close> with the rows it
  is given, and \<open>time.sleep\<close>.
\<close>

datatype event =
    Get pystr nat
  | Log level message
  | Process_paper nat
  | To_csv csv
  | Sleep nat

text \<open>
  The outside world, read by the program: \<open>http_page url\<close> is the outcome of
  \<open>session.get(url)\<close>, \<open>raise_for_status()\<close> and the HTML parse; \<open>http_json url\<close> that of
  \<open>session.get(url)\<close>, \<open>raise_for_status()\<close> and \<open>response.json()\<close>; \<open>csv_write k\<close> is
  the exception, if any, that writing the checkpoint after \<open>k\<close> papers raises.
\<close>

record world =
  http_page :: "pystr \<Rightarrow> exn + node list"
  http_json :: "pystr \<Rightarrow> exn + json"
  csv_write :: "nat \<Rightarrow> exn option"

section \<open>Document queries\<close>

text \<open>\<open>find\<close> searches the descendants in document order.\<close>

fun descendants :: "node \<Rightarrow> node list" where
  "descendants (Tag n cl attrs ch) = concat (map (\<lambda>x. x # descendants x) ch)"
| "descendants (NavigableString s) = []"

definition soup_descendants :: "node list \<Rightarrow> node list" where
  "soup_descendants soup = concat (map (\<lambda>x. x # descendants x) soup)"

fun get_text :: "node \<Rightarrow> pystr" where
  "get_text (Tag n cl attrs ch) = concat (map get_text ch)"
| "get_text (NavigableString s) = s"

fun named :: "pystr \<Rightarrow> node \<Rightarrow> bool" where
  "named n (Tag m cl attrs ch) = (m = n)"
| "named n (NavigableString s) = False"

fun has_attr :: "pystr \<Rightarrow> pystr \<Rightarrow> node \<Rightarrow> bool" where
  "has_attr k v (Tag m cl attrs ch) = (map_of attrs k = Some v)"
| "has_attr k v (NavigableString s) = False"

fun has_class :: "pystr \<Rightarrow> node \<Rightarrow> bool" where
  "has_class c (Tag m cl attrs ch) = (c \<in> set cl)"
| "has_class c (NavigableString s) = False"

text \<open>\<open>tag.get(key, default)\<close>.\<close>

fun attr_get :: "node \<Rightarrow> pystr \<Rightarrow> pystr \<Rightarrow> pystr" where
  "attr_get (Tag m cl attrs ch) k d = (case map_of attrs k of None \<Rightarrow> d | Some v \<Rightarrow> v)"
| "attr_get (NavigableString s) k d = d"

section \<open>\<open>PaperExtractor.extract_from_scopus\<close>\<close>

text \<open>Truth value of an optional string: \<open>None\<close> and \<open>''\<close> are false.\<close>

fun str_truthy :: "pystr option \<Rightarrow> bool" where
  "str_truthy None = False"
| "str_truthy (Some s) = (s \<noteq> [])"

text \<open>\<open>keywords or ''\<close>.\<close>

fun or_empty :: "pystr option \<Rightarrow> pystr" where
  "or_empty None = []"
| "or_empty (Some s) = s"

text \<open>The variable \<open>abstract\<close> after the three strategies (lines 64 to 82).\<close>

definition scopus_abstract :: "node list \<Rightarrow> pystr option" where
  "scopus_abstract soup =
     (let abstract = None;
          abstract =
            (case find (\<lambda>n. named (py ''section'') n \<and> has_attr (py ''id'') (py ''abstractSection'') n)
                    (soup_descendants soup) of
               None \<Rightarrow> abstract
             | Some abstract_section \<Rightarrow>
                 (case find (\<lambda>n. named (py ''div'') n \<and> has_class (py ''abstract'') n)
                         (descendants abstract_section) of
                    None \<Rightarrow> abstract
                  | Some abstract_text \<Rightarrow> Some (clean_text (Some (get_text abstract_text)))));
          abstract =
            (if \<not> str_truthy abstract then
               (case find (\<lambda>n. named (py ''div'') n \<and> has_class (py ''abstract'') n)
                       (soup_descendants soup) of
                  None \<Rightarrow> abstract
                | Some abstract_div \<Rightarrow> Some (clean_text (Some (get_text abstract_div))))
             else abstract);
          abstract =
            (if \<not> str_truthy abstract then
               (case find (\<lambda>n. named (py ''meta'') n \<and> has_attr (py ''name'') (py ''description'') n)
                       (soup_descendants soup) of
                  None \<Rightarrow> abstract
                | Some meta_abstract \<Rightarrow>
                    Some (clean_text (Some (attr_get meta_abstract (py ''content'') []))))
             else abstract)
      in abstract)"

text \<open>The variable \<open>keywords\<close> (lines 85 to 88).\<close>

definition scopus_keywords :: "node list \<Rightarrow> pystr option" where
  "scopus_keywords soup =
     (case find (\<lambda>n. named (py ''span'') n \<and> has_class (py ''keyword'') n) (soup_descendants soup) of
        None \<Rightarrow> None
      | Some keywords_section \<Rightarrow> Some (clean_text (Some (get_text keywords_section))))"

text \<open>
  The whole body is inside \<open>try\<close>; \<open>except Exception\<close> logs an error and returns
  \<open>(None, None)\<close>. The result is the returned pair and the events of the call.
\<close>

definition extract_from_scopus :: "world \<Rightarrow> cell \<Rightarrow> (pystr option \<times> pystr option) \<times> event list" where
  "extract_from_scopus w url =
     (case http_page w (str_of url) of
        Inl e \<Rightarrow> ((None, None), [Get (str_of url) 15, Log ERROR (Scopus_error (str_of url) e)])
      | Inr soup \<Rightarrow> ((scopus_abstract soup, scopus_keywords soup), [Get (str_of url) 15]))"

section \<open>\<open>PaperExtractor.extract_from_doi\<close>\<close>

text \<open>\<open>d.get(key, default)\<close>: an \<open>AttributeError\<close> unless \<open>d\<close> is a dict.\<close>

fun dict_get :: "json \<Rightarrow> pystr \<Rightarrow> json \<Rightarrow> exn + json" where
  "dict_get (JObject kv) k d = Inr (case map_of kv k of None \<Rightarrow> d | Some v \<Rightarrow> v)"
| "dict_get _ k d = Inl AttributeError"

fun json_truthy :: "json \<Rightarrow> bool" where
  "json_truthy JNull = False"
| "json_truthy (JBool b) = b"
| "json_truthy (JNum q) = (q \<noteq> 0)"
| "json_truthy (JStr s) = (s \<noteq> [])"
| "json_truthy (JArray xs) = (xs \<noteq> [])"
| "json_truthy (JObject kv) = (kv \<noteq> [])"

text \<open>
  \<open>self.clean_text(abstract)\<close> on a true JSON value: \<open>re.sub\<close> raises \<open>TypeError\<close> on
  anything but a string.
\<close>

fun clean_json :: "json \<Rightarrow> exn + pystr" where
  "clean_json (JStr s) = Inr (clean_text (Some s))"
| "clean_json _ = Inl TypeError"

definition api_url :: "cell \<Rightarrow> pystr" where
  "api_url doi = py ''https://api.crossref.org/works/'' @ str_of doi"

text \<open>
  The \<open>try\<close> block (lines 99 to 107): an exception, a \<open>return\<close> inside the block
  (\<open>Some\<close>), or falling out of it (\<open>None\<close>).
\<close>

definition doi_try :: "world \<Rightarrow> cell \<Rightarrow> exn + (pystr option \<times> pystr option) option" where
  "doi_try w doi =
     (case http_json w (api_url doi) of
        Inl e \<Rightarrow> Inl e
      | Inr data \<Rightarrow>
          (case dict_get data (py ''message'') (JObject []) of
             Inl e \<Rightarrow> Inl e
           | Inr message \<Rightarrow>
               (case dict_get message (py ''abstract'') (JStr []) of
                  Inl e \<Rightarrow> Inl e
                | Inr abstract \<Rightarrow>
                    if json_truthy abstract then
                      (case clean_json abstract of
                         Inl e \<Rightarrow> Inl e
                       | Inr t \<Rightarrow> Inr (Some (Some t, None)))
                    else Inr None)))"

definition extract_from_doi :: "world \<Rightarrow> cell \<Rightarrow> (pystr option \<times> pystr option) \<times> event list" where
  "extract_from_doi w doi =
     (case doi_try w doi of
        Inl e \<Rightarrow> ((None, None), [Get (api_url doi) 10, Log DEBUG (CrossRef_failed (str_of doi) e)])
      | Inr None \<Rightarrow> ((None, None), [Get (api_url doi) 10])
      | Inr (Some r) \<Rightarrow> (r, [Get (api_url doi) 10]))"

section \<open>\<open>PaperExtractor.process_paper\<close>\<close>

record row =
  Link :: cell
  DOI :: cell
  Abstract :: cell
  Keywords :: cell

record result =
  r_Abstract :: pystr
  r_Keywords :: pystr
  r_Status :: status

text \<open>Lines 134 to 143: the fallback, reached when the first tier has not returned.\<close>

definition doi_fallback :: "world \<Rightarrow> cell \<Rightarrow> result \<Rightarrow> result \<times> event list" where
  "doi_fallback w doi result =
     (if truthy doi then
        (case extract_from_doi w doi of
           ((abstract, keywords), ev) \<Rightarrow>
             if str_truthy abstract then
               (\<lparr>r_Abstract = or_empty abstract, r_Keywords = or_empty keywords,
                 r_Status = Success_DOI\<rparr>, ev)
             else (result, ev))
      else (result, []))"

definition process_paper :: "world \<Rightarrow> row \<Rightarrow> result \<times> event list" where
  "process_paper w row =
     (let scopus_url = Link row;
          doi = DOI row;
          result = \<lparr>r_Abstract = [], r_Keywords = [], r_Status = Failed\<rparr>
      in if truthy scopus_url then
           (case extract_from_scopus w scopus_url of
              ((abstract, keywords), ev) \<Rightarrow>
                if str_truthy abstract then
                  (\<lparr>r_Abstract = or_empty abstract, r_Keywords = or_empty keywords,
                    r_Status = Success_Scopus\<rparr>, ev)
                else (case doi_fallback w doi result of (r, ev') \<Rightarrow> (r, ev @ ev')))
         else doi_fallback w doi result)"

section \<open>\<open>main\<close>\<close>

definition BATCH_SIZE :: nat where
  "BATCH_SIZE = 50"

text \<open>
  \<open>pd.read_csv\<close> reads an empty field, and each of the strings below, as \<open>NaN\<close>
  (the default \<open>na_values\<close> of pandas); every other field is kept as the string it is.
  \<open>to_csv\<close> writes \<open>NaN\<close> as an empty field.
\<close>

definition na_values :: "pystr list" where
  "na_values = map py
     ['''', ''#N/A'', ''#N/A N/A'', ''#NA'', ''-1.#IND'', ''-1.#QNAN'', ''-NaN'', ''-nan'',
      ''1.#IND'', ''1.#QNAN'', ''<NA>'', ''N/A'', ''NA'', ''NULL'', ''NaN'', ''None'',
      ''n/a'', ''nan'', ''null'']"

definition parse_field :: "pystr \<Rightarrow> cell" where
  "parse_field s = (if s \<in> set na_values then NaN else Str s)"

definition read_csv :: "csv \<Rightarrow> (cell \<times> cell \<times> cell) list" where
  "read_csv f = map (\<lambda>(l, a, k). (parse_field l, parse_field a, parse_field k)) f"

fun csv_field :: "cell \<Rightarrow> pystr" where
  "csv_field NaN = []"
| "csv_field (Str s) = s"

definition to_csv :: "row list \<Rightarrow> csv" where
  "to_csv d = map (\<lambda>r. (csv_field (Link r), csv_field (Abstract r), csv_field (Keywords r))) d"

text \<open>A loaded paper: its \<open>Link\<close> and its \<open>DOI\<close>.\<close>

type_synonym paper = "cell \<times> cell"

text \<open>
  \<open>df.merge(checkpoint_df, on='Link', how='left')\<close>, columns \<open>Abstract\<close> and
  \<open>Keywords\<close> of the result: the rows of the left frame in order, each once for every
  checkpoint row with its link, or once with \<open>NaN\<close> when there is none.
\<close>

definition merge_left :: "paper list \<Rightarrow> (cell \<times> cell \<times> cell) list \<Rightarrow> (cell \<times> cell) list" where
  "merge_left papers checkpoint_df =
     concat (map (\<lambda>p. case filter (\<lambda>c. fst c = fst p) checkpoint_df of
                         [] \<Rightarrow> [(NaN, NaN)]
                       | ms \<Rightarrow> map snd ms) papers)"

text \<open>
  Lines 164 to 175: the frame with its two new columns, and \<open>start_index\<close>. The column
  assignment aligns on the row index, so row \<open>i\<close> of \<open>df\<close> takes row \<open>i\<close> of the merge.
\<close>

definition resume :: "paper list \<Rightarrow> csv option \<Rightarrow> row list \<times> nat" where
  "resume papers ckpt =
     (case ckpt of
        Some f \<Rightarrow>
          (let checkpoint_df = read_csv f;
               df_merged = merge_left papers checkpoint_df;
               d = map (\<lambda>(p, m). \<lparr>Link = fst p, DOI = snd p, Abstract = fst m, Keywords = snd m\<rparr>)
                     (zip papers df_merged);
               start_index = length (filter notna (map Abstract d))
           in (d, start_index))
      | None \<Rightarrow>
          (map (\<lambda>p. \<lparr>Link = fst p, DOI = snd p, Abstract = Str [], Keywords = Str []\<rparr>) papers, 0))"

record run =
  df :: "row list"
  checkpoint_file :: "csv option"
  events :: "event list"

text \<open>\<open>result['Status'].startswith('Success')\<close>.\<close>

fun startswith_Success :: "status \<Rightarrow> bool" where
  "startswith_Success Failed = False"
| "startswith_Success Success_Scopus = True"
| "startswith_Success Success_DOI = True"

text \<open>
  One pass of the loop body (lines 184 to 207) for index \<open>i\<close>. The call of the paper
  processor is a parameter that may raise, so that the \<open>except\<close> clause of the loop is
  part of the model; an exception skips the rest of the body, the delay included.
\<close>

definition iteration :: "(row \<Rightarrow> exn + result \<times> event list) \<Rightarrow> world \<Rightarrow> nat \<Rightarrow> run \<Rightarrow> run" where
  "iteration proc w i st =
     (let st = st\<lparr>events := events st @ [Process_paper i]\<rparr>
      in case proc (df st ! i) of
           Inl e \<Rightarrow> st\<lparr>events := events st @ [Log ERROR (Processing_error (i + 1) e)]\<rparr>
         | Inr (result, ev) \<Rightarrow>
             (let st = st\<lparr>df := (df st)[i := (df st ! i)\<lparr>Abstract := Str (r_Abstract result),
                                                         Keywords := Str (r_Keywords result)\<rparr>],
                          events := events st @ ev @
                            [if startswith_Success (r_Status result)
                             then Log INFO (Paper_status (i + 1) (length (df st)) (r_Status result))
                             else Log WARNING (Paper_failed (i + 1) (length (df st)))]\<rparr>
              in if (i + 1) mod BATCH_SIZE = 0 then
                   (case csv_write w (i + 1) of
                      Some e \<Rightarrow>
                        st\<lparr>events := events st @
                             [To_csv (to_csv (df st)), Log ERROR (Processing_error (i + 1) e)]\<rparr>
                    | None \<Rightarrow>
                        st\<lparr>checkpoint_file := Some (to_csv (df st)),
                           events := events st @
                             [To_csv (to_csv (df st)), Log INFO (Checkpoint_saved (i + 1)), Sleep 2]\<rparr>)
                 else st\<lparr>events := events st @ [Sleep 2]\<rparr>))"

text \<open>The run up to the end of the loop, for \<open>i in range(start_index, len(df))\<close>.\<close>

definition main_with ::
  "(row \<Rightarrow> exn + result \<times> event list) \<Rightarrow> world \<Rightarrow> paper list \<Rightarrow> csv option \<Rightarrow> run" where
  "main_with proc w papers ckpt =
     (case resume papers ckpt of
        (d, start_index) \<Rightarrow>
          fold (iteration proc w) [start_index..<length d]
            \<lparr>df = d, checkpoint_file = ckpt, events = []\<rparr>)"

text \<open>\<open>process_paper\<close> returns normally on every row: its two callees catch \<open>Exception\<close>.\<close>

definition main :: "world \<Rightarrow> paper list \<Rightarrow> csv option \<Rightarrow> run" where
  "main w papers ckpt = main_with (\<lambda>r. Inr (process_paper w r)) w papers ckpt"

subsection \<open>Statistics\<close>

text \<open>\<open>df['Abstract'].astype(bool).sum()\<close> counts the cells that are true.\<close>

definition success_count :: "row list \<Rightarrow> nat" where
  "success_count d = length (filter truthy (map Abstract d))"

fun dec :: "nat \<Rightarrow> pystr" where
  "dec n = (if n < 10 then [48 + n] else dec (n div 10) @ [48 + n mod 10])"

text \<open>The quotient \<open>a / b\<close> rounded to the nearest integer, ties to even.\<close>

definition round_ratio :: "nat \<Rightarrow> nat \<Rightarrow> nat" where
  "round_ratio a b =
     (let q = a div b; r = a mod b
      in if 2 * r < b then q else if b < 2 * r then q + 1 else if even q then q else q + 1)"

text \<open>
  The rate is a Python float (binary64). A finite float that is not negative is written
  \<open>(m, k)\<close> for the value \<open>m / 2 ^ k\<close>. The float nearest to a quotient \<open>a / b\<close> below
  \<open>2 ^ 53\<close> has the mantissa \<open>a * 2 ^ k / b\<close> rounded to the nearest integer, ties to
  even, for the least \<open>k\<close> that brings the mantissa to \<open>2 ^ 52\<close> or more; the success
  rate, between 0 and 100, is far from the subnormal and the infinite floats.
\<close>

type_synonym float64 = "nat \<times> nat"

function scale :: "nat \<Rightarrow> nat \<Rightarrow> nat \<Rightarrow> nat" where
  "scale a b k = (if a = 0 \<or> b = 0 \<or> 2 ^ 52 * b \<le> a * 2 ^ k then k else scale a b (Suc k))"
  by pat_completeness auto
termination
proof (relation "measure (\<lambda>(a, b, k). 2 ^ 52 * b - a * 2 ^ k)")
  show "wf (measure (\<lambda>(a, b, k). 2 ^ 52 * b - a * 2 ^ k))" by simp
next
  fix a b k :: nat
  assume "\<not> (a = 0 \<or> b = 0 \<or> 2 ^ 52 * b \<le> a * 2 ^ k)"
  then have a: "0 < a" and l: "a * 2 ^ k < 2 ^ 52 * b" by simp_all
  have "a * 2 ^ k < a * 2 ^ Suc k" using a by simp
  then have "2 ^ 52 * b - a * 2 ^ Suc k < 2 ^ 52 * b - a * 2 ^ k"
    using l by (rule diff_less_mono2)
  then show "((a, b, Suc k), (a, b, k)) \<in> measure (\<lambda>(a, b, k). 2 ^ 52 * b - a * 2 ^ k)"
    by (simp only: in_measure split_conv)
qed

declare scale.simps [simp del]

definition fl :: "nat \<Rightarrow> nat \<Rightarrow> float64" where
  "fl a b = (let k = scale a b 0 in (round_ratio (a * 2 ^ k) b, k))"

text \<open>
  \<open>(success_count / len(df)) * 100\<close>: the division is rounded to a float, and so is its
  product with 100. With no rows the division gives \<open>nan\<close>.
\<close>

definition rate :: "nat \<Rightarrow> nat \<Rightarrow> float64" where
  "rate c n = (case fl c n of (m, k) \<Rightarrow> fl (m * 100) (2 ^ k))"

definition success_rate :: "row list \<Rightarrow> float64 option" where
  "success_rate d = (if length d = 0 then None else Some (rate (success_count d) (length d)))"

text \<open>
  \<open>:.2f\<close> prints the exact value of the float rounded to the nearest hundredth, ties to
  even.
\<close>

definition format_2f :: "float64 \<Rightarrow> pystr" where
  "format_2f x =
     (case x of
        (m, k) \<Rightarrow>
          let h = round_ratio (100 * m) (2 ^ k)
          in dec (h div 100) @ py ''.'' @ [48 + h mod 100 div 10, 48 + h mod 10])"

text \<open>The three computed values of the summary (lines 220 to 222).\<close>

definition report :: "row list \<Rightarrow> nat \<times> nat \<times> pystr" where
  "report d =
     (length d, success_count d,
      (case success_rate d of None \<Rightarrow> py ''nan'' | Some x \<Rightarrow> format_2f x) @ py ''%'')"

text \<open>An abstract that the output shows: a string that is not empty.\<close>

fun nonempty :: "cell \<Rightarrow> bool" where
  "nonempty NaN = False"
| "nonempty (Str s) = (s \<noteq> [])"

section \<open>The strategies of the field extractor, and concrete inputs\<close>

text \<open>
  The three strategies as the specification lists them, each taken alone: (a), (b), (c).
\<close>

definition strategy_a :: "node list \<Rightarrow> pystr option" where
  "strategy_a soup =
     (case find (\<lambda>n. named (py ''section'') n \<and> has_attr (py ''id'') (py ''abstractSection'') n)
             (soup_descendants soup) of
        None \<Rightarrow> None
      | Some s \<Rightarrow>
          (case find (\<lambda>n. named (py ''div'') n \<and> has_class (py ''abstract'') n) (descendants s) of
             None \<Rightarrow> None
           | Some d \<Rightarrow> Some (clean_text (Some (get_text d)))))"

definition strategy_b :: "node list \<Rightarrow> pystr option" where
  "strategy_b soup =
     (case find (\<lambda>n. named (py ''div'') n \<and> has_class (py ''abstract'') n) (soup_descendants soup) of
        None \<Rightarrow> None
      | Some d \<Rightarrow> Some (clean_text (Some (get_text d))))"

definition strategy_c :: "node list \<Rightarrow> pystr option" where
  "strategy_c soup =
     (case find (\<lambda>n. named (py ''meta'') n \<and> has_attr (py ''name'') (py ''description'') n)
             (soup_descendants soup) of
        None \<Rightarrow> None
      | Some m \<Rightarrow> Some (clean_text (Some (attr_get m (py ''content'') []))))"

text \<open>Documents, replies, worlds and papers used as concrete inputs.\<close>

definition page_a :: "node list" where
  "page_a =
     [Tag (py ''html'') [] []
        [Tag (py ''meta'') [] [(py ''name'', py ''description''), (py ''content'', py ''Third'')] [],
         Tag (py ''div'') [py ''abstract''] [] [NavigableString (py ''Second'')],
         Tag (py ''section'') [] [(py ''id'', py ''abstractSection'')]
           [Tag (py ''div'') [py ''abstract''] [] [NavigableString (py ''First'')]],
         Tag (py ''span'') [py ''keyword''] [] [NavigableString (py ''AI; ML'')]]]"



definition page_blank :: "node list" where
  "page_blank =
     [Tag (py ''html'') [] []
        [Tag (py ''div'') [py ''abstract''] [] [NavigableString (py ''!!!'')]]]"

definition crossref_reply :: json where
  "crossref_reply =
     JObject [(py ''status'', JStr (py ''ok'')),
              (py ''message'', JObject [(py ''abstract'', JStr (py ''<jats:p>From CrossRef</jats:p>''))])]"

definition world_down :: world where
  "world_down =
     \<lparr>http_page = (\<lambda>u. Inl (HTTPError 404)), http_json = (\<lambda>u. Inl (HTTPError 404)),
      csv_write = (\<lambda>k. None)\<rparr>"

definition world_both :: world where
  "world_both =
     \<lparr>http_page = (\<lambda>u. Inr page_a), http_json = (\<lambda>u. Inr crossref_reply),
      csv_write = (\<lambda>k. None)\<rparr>"

definition world_blank :: world where
  "world_blank =
     \<lparr>http_page = (\<lambda>u. Inr page_blank), http_json = (\<lambda>u. Inr crossref_reply),
      csv_write = (\<lambda>k. None)\<rparr>"

definition paper_both :: row where
  "paper_both =
     \<lparr>Link = Str (py ''http://a''), DOI = Str (py ''10.1/x''), Abstract = Str [], Keywords = Str []\<rparr>"


section \<open>Observations on the events of a run\<close>

text \<open>The indices passed to \<open>process_paper\<close>, in order.\<close>

fun processed :: "event list \<Rightarrow> nat list" where
  "processed [] = []"
| "processed (Process_paper i # es) = i # processed es"
| "processed (_ # es) = processed es"

text \<open>
  For every call of \<open>to_csv\<close>, the number of papers processed in this run up to the
  call, counted from \<open>c\<close>.
\<close>

fun write_points :: "nat \<Rightarrow> event list \<Rightarrow> nat list" where
  "write_points c [] = []"
| "write_points c (Process_paper i # es) = write_points (Suc c) es"
| "write_points c (To_csv f # es) = c # write_points c es"
| "write_points c (_ # es) = write_points c es"

text \<open>The events of a call of \<open>process_paper\<close>: requests and logging calls.\<close>

fun quiet :: "event \<Rightarrow> bool" where
  "quiet (Get u t) = True"
| "quiet (Log l m) = True"
| "quiet _ = False"

text \<open>The frames passed to \<open>to_csv\<close>, in order.\<close>

fun written :: "event list \<Rightarrow> csv list" where
  "written [] = []"
| "written (To_csv f # es) = f # written es"
| "written (_ # es) = written es"

text \<open>A checkpoint file whose rows carry the links of the loaded papers, in their order.\<close>

definition aligned :: "csv \<Rightarrow> paper list \<Rightarrow> bool" where
  "aligned f papers \<longleftrightarrow> map (\<lambda>c. parse_field (fst c)) f = map fst papers"

text \<open>A checkpoint file in which exactly the first \<open>m\<close> rows hold an abstract.\<close>

definition covers_first :: "nat \<Rightarrow> csv \<Rightarrow> bool" where
  "covers_first m f \<longleftrightarrow>
     m \<le> length f \<and>
     map (\<lambda>c. notna (parse_field (fst (snd c)))) f =
       replicate m True @ replicate (length f - m) False"

text \<open>
  A family of papers with distinct links, and the checkpoint that covers its first \<open>m\<close>
  papers.
\<close>

definition paper_link :: "nat \<Rightarrow> pystr" where
  "paper_link i = py ''http://p/'' @ replicate (Suc i) 120"

definition papers_upto :: "nat \<Rightarrow> paper list" where
  "papers_upto n = map (\<lambda>i. (Str (paper_link i), Str [])) [0..<n]"

definition checkpoint_upto :: "nat \<Rightarrow> nat \<Rightarrow> csv" where
  "checkpoint_upto m n =
     map (\<lambda>i. (paper_link i, if i < m then py ''Done'' else [], [])) [0..<n]"


text \<open>
  A checkpoint in which the first of two papers has no abstract and the second has one.
\<close>

definition checkpoint_gap :: csv where
  "checkpoint_gap = [(paper_link 0, [], []), (paper_link 1, py ''Done'', [])]"

section \<open>Properties of \<open>clean_text\<close>\<close>

lemma isspace_32 [simp]: "isspace 32"
  by (simp add: isspace_def)

lemma allowed_32 [simp]: "allowed 32"
  by (simp add: allowed_def)

lemma not_allowed_60 [simp]: "\<not> allowed 60"
  by (simp add: allowed_def isspace_def)

lemma remove_tags_no_lt: "60 \<notin> set t \<Longrightarrow> remove_tags t = t"
  by (induction t) auto

lemma collapse_ws_set: "set (collapse_ws t) \<subseteq> insert 32 (set t)"
proof (induction t rule: collapse_ws.induct)
  case 1
  show ?case by simp
next
  case (2 c cs)
  show ?case
  proof (cases "isspace c")
    case True
    with 2 have "set (collapse_ws (dropWhile isspace cs)) \<subseteq> insert 32 (set (dropWhile isspace cs))"
      by simp
    moreover have "set (dropWhile isspace cs) \<subseteq> set cs"
      by (simp add: set_dropWhileD subsetI)
    ultimately show ?thesis using True by auto
  next
    case False
    with 2 show ?thesis by auto
  qed
qed

lemma collapse_ws_only_32: "x \<in> set (collapse_ws t) \<Longrightarrow> isspace x \<Longrightarrow> x = 32"
proof (induction t rule: collapse_ws.induct)
  case 1
  then show ?case by simp
next
  case (2 c cs)
  then show ?case by (cases "isspace c") auto
qed

lemma collapse_ws_Nil_iff [simp]: "collapse_ws t = [] \<longleftrightarrow> t = []"
  by (cases t) auto

lemma collapse_ws_hd: "t \<noteq> [] \<Longrightarrow> \<not> isspace (hd t) \<Longrightarrow> hd (collapse_ws t) = hd t"
  by (cases t) auto

lemma collapse_ws_last: "t \<noteq> [] \<Longrightarrow> \<not> isspace (last t) \<Longrightarrow> last (collapse_ws t) = last t"
proof (induction t rule: collapse_ws.induct)
  case 1
  then show ?case by simp
next
  case (2 c cs)
  show ?case
  proof (cases "isspace c")
    case True
    have ne: "dropWhile isspace cs \<noteq> []"
    proof
      assume e: "dropWhile isspace cs = []"
      then have "\<forall>x\<in>set (c # cs). isspace x" using True by (simp add: dropWhile_eq_Nil_conv)
      moreover have "last (c # cs) \<in> set (c # cs)" by (rule last_in_set) simp
      ultimately show False using 2(4) by blast
    qed
    then have cs: "cs \<noteq> []" by auto
    have l: "last (dropWhile isspace cs) = last cs"
      using ne by (metis append_is_Nil_conv last_appendR takeWhile_dropWhile_id)
    have A: "last (collapse_ws (dropWhile isspace cs)) = last (dropWhile isspace cs)"
      using 2(1) [OF True ne] 2(4) cs l by simp
    have B: "collapse_ws (c # cs) = 32 # collapse_ws (dropWhile isspace cs)"
      using True by simp
    have C: "collapse_ws (dropWhile isspace cs) \<noteq> []"
      using ne by (simp only: collapse_ws_Nil_iff not_False_eq_True)
    have "last (collapse_ws (c # cs)) = last (collapse_ws (dropWhile isspace cs))"
      unfolding B using C by (rule last_ConsR)
    also have "\<dots> = last cs" unfolding A by (rule l)
    also have "\<dots> = last (c # cs)" using cs by (rule last_ConsR [symmetric])
    finally show ?thesis .
  next
    case False
    show ?thesis
    proof (cases "cs = []")
      case True
      then show ?thesis using False by simp
    next
      case ne: False
      then have "last (collapse_ws cs) = last cs" using 2(2) [OF False ne] 2(4) by simp
      then show ?thesis using False ne by simp
    qed
  qed
qed

lemma dropWhile_collapse_ws:
  "t = [] \<or> \<not> isspace (hd t) \<Longrightarrow> dropWhile isspace (collapse_ws t) = collapse_ws t"
  by (cases t) auto

lemma collapse_ws_idem: "collapse_ws (collapse_ws t) = collapse_ws t"
proof (induction t rule: collapse_ws.induct)
  case 1
  show ?case by simp
next
  case (2 c cs)
  show ?case
  proof (cases "isspace c")
    case True
    have "dropWhile isspace cs = [] \<or> \<not> isspace (hd (dropWhile isspace cs))"
      by (metis hd_dropWhile)
    then have "dropWhile isspace (collapse_ws (dropWhile isspace cs)) = collapse_ws (dropWhile isspace cs)"
      by (rule dropWhile_collapse_ws)
    then show ?thesis using True 2(1) by simp
  next
    case False
    then show ?thesis using 2(2) by simp
  qed
qed

lemma collapse_ws_single_spaced:
  "\<forall>c\<in>set t. isspace c \<longrightarrow> c = 32 \<Longrightarrow> \<not> adjacent_spaces t \<Longrightarrow> collapse_ws t = t"
proof (induction t rule: collapse_ws.induct)
  case 1
  show ?case by simp
next
  case (2 c cs)
  show ?case
  proof (cases "isspace c")
    case True
    then have c: "c = 32" using 2(3) by simp
    have d: "dropWhile isspace cs = cs"
    proof (cases cs)
      case Nil
      then show ?thesis by simp
    next
      case (Cons b bs)
      then have "b \<noteq> 32" using 2(4) c by auto
      then have "\<not> isspace b" using 2(3) Cons by auto
      then show ?thesis using Cons by simp
    qed
    have "\<not> adjacent_spaces cs" using 2(4) by (cases cs) auto
    then have "collapse_ws cs = cs" using 2(1) [OF True] 2(3) d by simp
    then show ?thesis using True c d by simp
  next
    case False
    have "\<not> adjacent_spaces cs" using 2(4) by (cases cs) auto
    then show ?thesis using False 2(2) 2(3) by simp
  qed
qed

lemma strip_fixed: "t = [] \<or> (\<not> isspace (hd t) \<and> \<not> isspace (last t)) \<Longrightarrow> strip t = t"
proof (cases "t = []")
  case True
  then show ?thesis by (simp add: strip_def)
next
  case False
  assume "t = [] \<or> (\<not> isspace (hd t) \<and> \<not> isspace (last t))"
  then have h: "\<not> isspace (hd t)" and l: "\<not> isspace (last t)" using False by auto
  have 1: "dropWhile isspace t = t" using False h by (cases t) auto
  have "hd (rev t) = last t" using False by (simp add: hd_rev)
  moreover have "rev t \<noteq> []" using False by simp
  ultimately obtain as where r: "rev t = last t # as"
    by (cases "rev t") (simp_all del: rev_is_Nil_conv)
  have "dropWhile isspace (last t # as) = last t # as" using l by simp
  then have 2: "dropWhile isspace (rev t) = rev t" unfolding r .
  show ?thesis by (simp add: strip_def 1 2)
qed

lemma strip_ends: "strip t = [] \<or> (\<not> isspace (hd (strip t)) \<and> \<not> isspace (last (strip t)))"
proof -
  let ?u = "dropWhile isspace t"
  let ?v = "dropWhile isspace (rev ?u)"
  have s: "strip t = rev ?v" by (simp add: strip_def)
  show ?thesis
  proof (cases "?v = []")
    case True
    then show ?thesis using s by simp
  next
    case False
    then have hv: "\<not> isspace (hd ?v)" by (metis hd_dropWhile)
    have lst: "last (strip t) = hd ?v" using s False by (simp add: last_rev)
    have "rev ?u = takeWhile isspace (rev ?u) @ ?v" by simp
    then have "?u = rev ?v @ rev (takeWhile isspace (rev ?u))"
      by (metis rev_append rev_rev_ident)
    then have "hd ?u = hd (rev ?v)" using False by (metis hd_append2 rev_is_Nil_conv)
    moreover have "?u \<noteq> []"
    proof
      assume "?u = []"
      then have "?v = []" by (simp del: dropWhile_eq_Nil_conv)
      then show False using False by simp
    qed
    then have "\<not> isspace (hd ?u)" by (metis hd_dropWhile)
    ultimately show ?thesis using s lst hv by simp
  qed
qed

lemma set_strip: "x \<in> set (strip t) \<Longrightarrow> x \<in> set t"
proof -
  assume "x \<in> set (strip t)"
  then have "x \<in> set (dropWhile isspace (rev (dropWhile isspace t)))"
    by (simp add: strip_def)
  then have "x \<in> set (rev (dropWhile isspace t))" by (rule set_dropWhileD)
  then have "x \<in> set (dropWhile isspace t)" by simp
  then show "x \<in> set t" by (rule set_dropWhileD)
qed

lemma clean_text_normal_form: "normal_form (clean_text (Some s))"
proof (cases "s = []")
  case True
  then show ?thesis by (simp add: clean_text_def normal_form_def)
next
  case False
  let ?w = "remove_special (collapse_ws (remove_tags s))"
  have ct: "clean_text (Some s) = strip ?w" using False by (simp add: clean_text_def)
  have "\<forall>c\<in>set ?w. allowed c \<and> (isspace c \<longrightarrow> c = 32)"
    by (auto simp: remove_special_def dest: collapse_ws_only_32)
  then have "\<forall>c\<in>set (strip ?w). allowed c \<and> (isspace c \<longrightarrow> c = 32)"
    using set_strip [of _ ?w] by blast
  then show ?thesis using strip_ends [of ?w] by (auto simp: ct normal_form_def list_all_iff)
qed

lemma clean_text_on_normal_form:
  assumes "normal_form t"
  shows "clean_text (Some t) = collapse_ws t"
proof (cases "t = []")
  case True
  then show ?thesis by (simp add: clean_text_def)
next
  case False
  have al: "\<forall>c\<in>set t. allowed c" and ends: "\<not> isspace (hd t)" "\<not> isspace (last t)"
    using assms False by (auto simp: normal_form_def list_all_iff)
  have "60 \<notin> set t" using al by auto
  then have 1: "remove_tags t = t" by (rule remove_tags_no_lt)
  have "\<forall>c\<in>set (collapse_ws t). allowed c" using al collapse_ws_set [of t] by auto
  then have 2: "remove_special (collapse_ws t) = collapse_ws t"
    by (simp add: remove_special_def)
  have 3: "strip (collapse_ws t) = collapse_ws t"
    by (rule strip_fixed) (simp add: False ends collapse_ws_hd collapse_ws_last)
  show ?thesis using False by (simp add: clean_text_def 1 2 3)
qed


text \<open>
  C10, as stated: applying the normaliser twice gives the same as applying it once. This
  fails on \<open>a ! b\<close>: the whitespace runs are collapsed before the exclamation mark is
  removed, so the first result \<open>a  b\<close> has two neighbouring spaces, which the second
  application collapses.
\<close>

theorem clean_text_not_idempotent:
  "clean_text (Some (clean_text (Some (py ''a ! b'')))) \<noteq> clean_text (Some (py ''a ! b''))"
  by (simp add: clean_text_def py_def strip_def remove_special_def allowed_def isspace_def)

text \<open>
  C10, amended: for every string, a second application of the normaliser only collapses
  the runs of spaces that the first one left; so the normaliser is idempotent from its
  second application on, and it is idempotent at every string whose normalised form has
  no two neighbouring spaces.
\<close>

theorem clean_text_twice:
  "clean_text (Some (clean_text (Some s))) = collapse_ws (clean_text (Some s)) \<and>
   clean_text (Some (clean_text (Some (clean_text (Some s))))) =
     clean_text (Some (clean_text (Some s))) \<and>
   (\<not> adjacent_spaces (clean_text (Some s)) \<longrightarrow>
      clean_text (Some (clean_text (Some s))) = clean_text (Some s))"
proof -
  let ?n = "clean_text (Some s)"
  have nf: "normal_form ?n" by (rule clean_text_normal_form)
  have 1: "clean_text (Some ?n) = collapse_ws ?n" by (rule clean_text_on_normal_form [OF nf])
  have nf2: "normal_form (clean_text (Some ?n))" by (rule clean_text_normal_form)
  have 2: "clean_text (Some (clean_text (Some ?n))) = clean_text (Some ?n)"
    using clean_text_on_normal_form [OF nf2] by (simp add: 1 collapse_ws_idem)
  have sp: "\<forall>c\<in>set ?n. isspace c \<longrightarrow> c = 32"
    using nf by (auto simp: normal_form_def list_all_iff)
  have 3: "\<not> adjacent_spaces ?n \<longrightarrow> clean_text (Some ?n) = ?n"
    using collapse_ws_single_spaced [OF sp] by (simp add: 1)
  show ?thesis using 1 2 3 by blast
qed

theorem clean_text_twice_witness:
  "\<not> adjacent_spaces (clean_text (Some (py ''<b>A  b</b>!!''))) \<and>
   clean_text (Some (clean_text (Some (py ''<b>A  b</b>!!'')))) =
     clean_text (Some (py ''<b>A  b</b>!!''))"
proof -
  have h: "\<not> adjacent_spaces (clean_text (Some (py ''<b>A  b</b>!!'')))"
    by (simp add: clean_text_def py_def strip_def remove_special_def allowed_def isspace_def)
  show ?thesis using h clean_text_twice [of "py ''<b>A  b</b>!!''"] by blast
qed

section \<open>Properties of the extractors and of \<open>process_paper\<close>\<close>

lemmas eval_defs = clean_text_def py_def strip_def remove_special_def allowed_def isspace_def
  soup_descendants_def

lemma strategies_page_a:
  "strategy_a page_a = Some (py ''First'')" "strategy_b page_a = Some (py ''Second'')"
  "strategy_c page_a = Some (py ''Third'')"
  by (simp_all add: strategy_a_def strategy_b_def strategy_c_def page_a_def eval_defs)

lemma scopus_abstract_chain:
  "scopus_abstract soup =
     (if str_truthy (strategy_a soup) then strategy_a soup
      else if str_truthy (strategy_b soup) then strategy_b soup
      else if strategy_c soup \<noteq> None then strategy_c soup
      else if strategy_b soup \<noteq> None then strategy_b soup
      else strategy_a soup)"
  by (auto simp: scopus_abstract_def strategy_a_def strategy_b_def strategy_c_def Let_def
      split: option.splits)

lemma page_blank_abstract: "scopus_abstract page_blank = Some []"
  by (simp add: scopus_abstract_def page_blank_def eval_defs)

lemma crossref: "doi_try world_both (Str (py ''10.1/x'')) = Inr (Some (Some (py ''From CrossRef''), None))"
  by (simp add: doi_try_def world_both_def crossref_reply_def api_url_def eval_defs)






lemma keywords_page_a: "scopus_keywords page_a = Some (py ''AI; ML'')"
  by (simp add: scopus_keywords_def page_a_def eval_defs)




text \<open>
  C3, as stated, with a present abstract being any string the field extractor returns:
  a page whose only abstract element cleans to the empty string makes the extractor
  return the present but empty abstract \<open>''\<close>; the test \<open>if abstract\<close> is then false,
  the fallback client is called, and the outcome is not a primary success.
\<close>

theorem process_paper_blank_abstract_falls_back:
  "fst (fst (extract_from_scopus world_blank (Link paper_both))) = Some [] \<and>
   r_Status (fst (process_paper world_blank paper_both)) = Success_DOI \<and>
   Get (api_url (DOI paper_both)) 10 \<in> set (snd (process_paper world_blank paper_both))"
proof -
  have 1: "extract_from_scopus world_blank (Link paper_both) =
      ((Some [], None), [Get (py ''http://a'') 15])"
    by (simp add: extract_from_scopus_def world_blank_def paper_both_def page_blank_abstract)
       (simp add: scopus_keywords_def page_blank_def eval_defs)
  have 2: "doi_try world_blank (DOI paper_both) = Inr (Some (Some (py ''From CrossRef''), None))"
    by (simp add: doi_try_def world_blank_def paper_both_def crossref_reply_def api_url_def
        eval_defs)
  have 3: "truthy (Link paper_both)" "truthy (DOI paper_both)"
    by (simp_all add: paper_both_def py_def)
  have 4: "py ''From CrossRef'' \<noteq> []" by (simp add: py_def)
  show ?thesis
    by (simp add: process_paper_def doi_fallback_def extract_from_doi_def 1 2 3 4)
qed

text \<open>
  C3, amended: for every record with a true (non-empty) link for which the field
  extractor returns a non-empty abstract, the outcome is a primary success carrying that
  abstract and the extracted keywords (or the empty string), and the events of the call
  are those of the field extractor alone: no request with the fallback client's timeout
  is made, whatever the DOI lookup would return.
\<close>

theorem primary_success_precedes_fallback:
  assumes "truthy (Link r)"
    and "extract_from_scopus w (Link r) = ((Some a, k), ev)"
    and "a \<noteq> []"
  shows "process_paper w r =
           (\<lparr>r_Abstract = a, r_Keywords = or_empty k, r_Status = Success_Scopus\<rparr>, ev) \<and>
         (\<forall>u. Get u 10 \<notin> set (snd (process_paper w r)))"
proof -
  have p: "process_paper w r =
      (\<lparr>r_Abstract = a, r_Keywords = or_empty k, r_Status = Success_Scopus\<rparr>, ev)"
    using assms by (simp add: process_paper_def)
  have "\<forall>u. Get u 10 \<notin> set ev"
    using assms(2) by (auto simp: extract_from_scopus_def split: sum.splits)
  with p show ?thesis by simp
qed

theorem primary_success_precedes_fallback_witness:
  "process_paper world_both paper_both =
     (\<lparr>r_Abstract = py ''First'', r_Keywords = py ''AI; ML'', r_Status = Success_Scopus\<rparr>,
      [Get (py ''http://a'') 15]) \<and>
   doi_try world_both (DOI paper_both) = Inr (Some (Some (py ''From CrossRef''), None))"
proof -
  have 1: "truthy (Link paper_both)" by (simp add: paper_both_def py_def)
  have sa: "scopus_abstract page_a = Some (py ''First'')"
    by (simp add: scopus_abstract_chain strategies_page_a py_def)
  have 2: "extract_from_scopus world_both (Link paper_both) =
      ((Some (py ''First''), Some (py ''AI; ML'')), [Get (py ''http://a'') 15])"
    by (simp add: extract_from_scopus_def world_both_def paper_both_def sa keywords_page_a)
  have 3: "py ''First'' \<noteq> []" by (simp add: py_def)
  have 4: "doi_try world_both (DOI paper_both) = Inr (Some (Some (py ''From CrossRef''), None))"
    by (simp add: paper_both_def crossref)
  show ?thesis using primary_success_precedes_fallback [OF 1 2 3] 4 by simp
qed



section \<open>Properties of the loop\<close>

lemma processed_append: "processed (xs @ ys) = processed xs @ processed ys"
  by (induction xs rule: processed.induct) auto

lemma write_points_append:
  "write_points c (xs @ ys) = write_points c xs @ write_points (c + length (processed xs)) ys"
  by (induction c xs rule: write_points.induct) auto

lemma processed_quiet: "list_all quiet ev \<Longrightarrow> processed ev = []"
  by (induction ev rule: processed.induct) auto

lemma write_points_quiet: "list_all quiet ev \<Longrightarrow> write_points c ev = []"
  by (induction c ev rule: write_points.induct) auto

lemma iteration_length: "length (df (iteration proc w i st)) = length (df st)"
  by (simp add: iteration_def Let_def split: sum.splits prod.splits option.splits)






lemma iteration_events:
  assumes "\<forall>r res ev. proc r = Inr (res, ev) \<longrightarrow> list_all quiet ev"
  shows "\<exists>E. events (iteration proc w i st) = events st @ Process_paper i # E \<and>
             processed E = [] \<and>
             (\<forall>c. write_points c E =
                (if (\<exists>x. proc (df st ! i) = Inr x) \<and> (i + 1) mod BATCH_SIZE = 0 then [c] else []))"
proof (cases "proc (df st ! i)")
  case (Inl e)
  then show ?thesis by (simp add: iteration_def Let_def)
next
  case (Inr x)
  obtain res ev where x: "x = (res, ev)" by (cases x)
  have q: "list_all quiet ev" using assms Inr x by blast
  show ?thesis
    using Inr x processed_quiet [OF q] write_points_quiet [OF q]
    by (simp add: iteration_def Let_def processed_append write_points_append
        split: option.splits)
qed

lemma fold_upt_Suc: "a \<le> b \<Longrightarrow> fold f [a..<Suc b] s = f b (fold f [a..<b] s)"
  by simp

lemma loop_length: "length (df (fold (iteration proc w) [a..<b] st)) = length (df st)"
proof (induction b)
  case 0
  show ?case by simp
next
  case (Suc b)
  show ?case by (cases "a \<le> b") (simp_all add: iteration_length Suc)
qed







lemma loop_events:
  assumes q: "\<forall>r res ev. proc r = Inr (res, ev) \<longrightarrow> list_all quiet ev"
  shows "a \<le> b \<Longrightarrow>
    \<exists>E. events (fold (iteration proc w) [a..<b] st) = events st @ E \<and>
        processed E = [a..<b] \<and>
        ((\<forall>r. \<exists>x. proc r = Inr x) \<longrightarrow>
           (\<forall>c. write_points c E =
              map (\<lambda>k. c + (k - a)) (filter (\<lambda>k. k mod BATCH_SIZE = 0) [Suc a..<Suc b])))"
proof (induction b)
  case 0
  then show ?case by simp
next
  case (Suc b)
  show ?case
  proof (cases "a = Suc b")
    case True
    then show ?thesis by simp
  next
    case False
    then have ab: "a \<le> b" using Suc.prems by simp
    let ?s = "fold (iteration proc w) [a..<b] st"
    obtain E where E: "events ?s = events st @ E" "processed E = [a..<b]"
      "(\<forall>r. \<exists>x. proc r = Inr x) \<longrightarrow>
         (\<forall>c. write_points c E =
            map (\<lambda>k. c + (k - a)) (filter (\<lambda>k. k mod BATCH_SIZE = 0) [Suc a..<Suc b]))"
      using Suc.IH [OF ab] by blast
    obtain F where F: "events (iteration proc w b ?s) = events ?s @ Process_paper b # F"
      "processed F = []"
      "\<forall>c. write_points c F =
         (if (\<exists>x. proc (df ?s ! b) = Inr x) \<and> (b + 1) mod BATCH_SIZE = 0 then [c] else [])"
      using iteration_events [OF q, of w b ?s] by blast
    let ?G = "E @ Process_paper b # F"
    have 1: "events (fold (iteration proc w) [a..<Suc b] st) = events st @ ?G"
      using ab E(1) F(1) by simp
    have 2: "processed ?G = [a..<Suc b]"
      using ab E(2) F(2) by (simp add: processed_append)
    have 3: "\<forall>c. write_points c ?G =
        map (\<lambda>k. c + (k - a)) (filter (\<lambda>k. k mod BATCH_SIZE = 0) [Suc a..<Suc (Suc b)])"
      if t: "\<forall>r. \<exists>x. proc r = Inr x"
    proof
      fix c
      have "write_points c ?G =
          write_points c E @ write_points (Suc (c + length [a..<b])) F"
        by (simp add: write_points_append E(2))
      also have "write_points (Suc (c + length [a..<b])) F =
          (if Suc b mod BATCH_SIZE = 0 then [c + (Suc b - a)] else [])"
        using F(3) t ab by simp arith
      finally show "write_points c ?G =
          map (\<lambda>k. c + (k - a)) (filter (\<lambda>k. k mod BATCH_SIZE = 0) [Suc a..<Suc (Suc b)])"
        using E(3) t ab by simp
    qed
    show ?thesis using 1 2 3 by blast
  qed
qed

section \<open>Properties of the merge with the checkpoint\<close>



lemma length_merge_left: "length papers \<le> length (merge_left papers ck)"
proof (induction papers)
  case Nil
  show ?case by (simp add: merge_left_def)
next
  case (Cons p ps)
  have "1 \<le> length (case filter (\<lambda>c. fst c = fst p) ck of [] \<Rightarrow> [(NaN, NaN)] | ms \<Rightarrow> map snd ms)"
    by (simp split: list.splits)
  then show ?case using Cons by (simp add: merge_left_def)
qed


lemma resume_start:
  "snd (resume papers (Some f)) =
     length (filter notna (map Abstract (fst (resume papers (Some f)))))"
  by (simp only: resume_def Let_def option.simps fst_conv snd_conv)

lemma resume_length: "length (fst (resume papers ckpt)) = length papers"
  using length_merge_left [of papers]
  by (cases ckpt) (simp_all add: resume_def Let_def)

lemma resume_start_le: "snd (resume papers ckpt) \<le> length papers"
proof (cases ckpt)
  case None
  then show ?thesis by (simp add: resume_def)
next
  case (Some f)
  have "snd (resume papers ckpt) = length (filter notna (map Abstract (fst (resume papers ckpt))))"
    unfolding Some by (rule resume_start)
  also have "\<dots> \<le> length (map Abstract (fst (resume papers ckpt)))" by (rule length_filter_le)
  finally show ?thesis by (simp add: resume_length)
qed

lemma resume_row:
  assumes "i < length papers"
  shows "fst (resume papers (Some f)) ! i =
           \<lparr>Link = fst (papers ! i), DOI = snd (papers ! i),
            Abstract = fst (merge_left papers (read_csv f) ! i),
            Keywords = snd (merge_left papers (read_csv f) ! i)\<rparr>"
  using assms length_merge_left [of papers "read_csv f"]
  by (simp add: resume_def Let_def)

lemma resume_fresh_row:
  "i < length papers \<Longrightarrow>
   fst (resume papers None) ! i =
     \<lparr>Link = fst (papers ! i), DOI = snd (papers ! i), Abstract = Str [], Keywords = Str []\<rparr>"
  by (simp add: resume_def)



lemma filter_distinct_key:
  "distinct (map fst ck) \<Longrightarrow>
   filter (\<lambda>c. fst c = k) ck = (case find (\<lambda>c. fst c = k) ck of None \<Rightarrow> [] | Some c \<Rightarrow> [c])"
proof (induction ck)
  case Nil
  show ?case by simp
next
  case (Cons c cs)
  show ?case
  proof (cases "fst c = k")
    case True
    then have "k \<notin> fst ` set cs" using Cons.prems by auto
    then have "filter (\<lambda>c. fst c = k) cs = []" by (auto simp: filter_empty_conv)
    then show ?thesis using True by simp
  next
    case False
    then show ?thesis using Cons by simp
  qed
qed

lemma merge_left_Cons:
  "merge_left (p # ps) ck =
     (case filter (\<lambda>c. fst c = fst p) ck of [] \<Rightarrow> [(NaN, NaN)] | ms \<Rightarrow> map snd ms) @
     merge_left ps ck"
  by (simp add: merge_left_def)

lemma merge_left_distinct:
  assumes "distinct (map fst ck)"
  shows "merge_left papers ck =
     map (\<lambda>p. case find (\<lambda>c. fst c = fst p) ck of None \<Rightarrow> (NaN, NaN) | Some c \<Rightarrow> snd c) papers"
proof (induction papers)
  case Nil
  show ?case by (simp add: merge_left_def)
next
  case (Cons p ps)
  have "(case filter (\<lambda>c. fst c = fst p) ck of [] \<Rightarrow> [(NaN, NaN)] | ms \<Rightarrow> map snd ms) =
        [case find (\<lambda>c. fst c = fst p) ck of None \<Rightarrow> (NaN, NaN) | Some c \<Rightarrow> snd c]"
    by (simp add: filter_distinct_key [OF assms] split: option.splits)
  then show ?case by (simp add: merge_left_Cons Cons.IH)
qed

lemma find_distinct_nth:
  "distinct (map fst ck) \<Longrightarrow> i < length ck \<Longrightarrow>
   find (\<lambda>c. fst c = fst (ck ! i)) ck = Some (ck ! i)"
proof (induction ck arbitrary: i)
  case Nil
  then show ?case by simp
next
  case (Cons c cs)
  show ?case
  proof (cases i)
    case 0
    then show ?thesis by simp
  next
    case (Suc j)
    then have j: "j < length cs" using Cons.prems by simp
    then have "cs ! j \<in> set cs" by simp
    then have "fst (cs ! j) \<in> set (map fst cs)" by (simp del: nth_mem)
    moreover have "fst c \<notin> set (map fst cs)" using Cons.prems(1) by simp
    ultimately have "fst c \<noteq> fst (cs ! j)" by metis
    moreover have "find (\<lambda>x. fst x = fst (cs ! j)) cs = Some (cs ! j)"
      using Cons.IH [OF _ j] Cons.prems(1) by simp
    ultimately show ?thesis using Suc by simp
  qed
qed

lemma merge_left_aligned:
  assumes k: "map fst ck = map fst papers" and d: "distinct (map fst papers)"
  shows "merge_left papers ck = map snd ck"
proof -
  have dk: "distinct (map fst ck)" using k d by simp
  have len: "length ck = length papers" using k by (metis length_map)
  have "map (\<lambda>p. case find (\<lambda>c. fst c = fst p) ck of None \<Rightarrow> (NaN, NaN) | Some c \<Rightarrow> snd c) papers =
        map snd ck"
  proof (rule nth_equalityI)
    show "length (map (\<lambda>p. case find (\<lambda>c. fst c = fst p) ck of None \<Rightarrow> (NaN, NaN)
            | Some c \<Rightarrow> snd c) papers) = length (map snd ck)"
      using len by simp
  next
    fix i
    assume "i < length (map (\<lambda>p. case find (\<lambda>c. fst c = fst p) ck of None \<Rightarrow> (NaN, NaN)
            | Some c \<Rightarrow> snd c) papers)"
    then have i: "i < length papers" by simp
    have "fst (papers ! i) = fst (ck ! i)"
      using k i len by (metis nth_map)
    then show "map (\<lambda>p. case find (\<lambda>c. fst c = fst p) ck of None \<Rightarrow> (NaN, NaN)
            | Some c \<Rightarrow> snd c) papers ! i = map snd ck ! i"
      using i len find_distinct_nth [OF dk, of i] by simp
  qed
  then show ?thesis by (simp add: merge_left_distinct [OF dk])
qed

lemma resume_covers_first:
  assumes a: "aligned f papers" and d: "distinct (map fst papers)" and c: "covers_first m f"
  shows "snd (resume papers (Some f)) = m"
proof -
  have k: "map fst (read_csv f) = map fst papers"
    using a by (simp add: aligned_def read_csv_def split_def comp_def)
  have len: "length f = length papers" using a unfolding aligned_def by (metis length_map)
  have mg: "merge_left papers (read_csv f) = map snd (read_csv f)"
    by (rule merge_left_aligned [OF k d])
  have "map Abstract (fst (resume papers (Some f))) = map (\<lambda>c. parse_field (fst (snd c))) f"
  proof (rule nth_equalityI)
    show "length (map Abstract (fst (resume papers (Some f)))) =
          length (map (\<lambda>c. parse_field (fst (snd c))) f)"
      by (simp add: resume_length len)
  next
    fix i
    assume "i < length (map Abstract (fst (resume papers (Some f))))"
    then have i: "i < length papers" by (simp add: resume_length)
    have "fst (map snd (read_csv f) ! i) = parse_field (fst (snd (f ! i)))"
      using i len by (simp add: read_csv_def split_def)
    then show "map Abstract (fst (resume papers (Some f))) ! i =
               map (\<lambda>c. parse_field (fst (snd c))) f ! i"
      using i len by (simp add: resume_length resume_row mg)
  qed
  then have "length (filter notna (map Abstract (fst (resume papers (Some f))))) =
      length (filter notna (map (\<lambda>c. parse_field (fst (snd c))) f))" by simp
  also have "\<dots> = length (filter id (map (\<lambda>c. notna (parse_field (fst (snd c)))) f))"
    by (simp add: filter_map comp_def)
  also have "\<dots> = m" using c by (simp add: covers_first_def)
  finally show ?thesis by (simp only: resume_start)
qed

section \<open>Properties of a run\<close>

lemma written_append: "written (xs @ ys) = written xs @ written ys"
  by (induction xs rule: written.induct) auto

lemma written_quiet: "list_all quiet ev \<Longrightarrow> written ev = []"
  by (induction ev rule: written.induct) auto

lemma process_paper_quiet: "list_all quiet (snd (process_paper w r))"
  by (auto simp: process_paper_def doi_fallback_def extract_from_scopus_def extract_from_doi_def
      Let_def split: prod.splits sum.splits option.splits if_splits)

lemma process_paper_proc_quiet:
  "\<forall>r res ev. Inr (process_paper w r) = Inr (res, ev) \<longrightarrow> list_all quiet ev"
  using process_paper_quiet by (metis Inr_inject snd_conv)

lemma main_with_unfold:
  "main_with proc w papers ckpt =
     fold (iteration proc w) [snd (resume papers ckpt)..<length papers]
       \<lparr>df = fst (resume papers ckpt), checkpoint_file = ckpt, events = []\<rparr>"
  by (simp add: main_with_def split_def resume_length)


lemma main_write_points:
  "write_points 0 (events (main w papers ckpt)) =
     map (\<lambda>k. k - snd (resume papers ckpt))
       (filter (\<lambda>k. k mod BATCH_SIZE = 0) [Suc (snd (resume papers ckpt))..<Suc (length papers)])"
proof -
  have t: "\<forall>r. \<exists>x. Inr (process_paper w r) = (Inr x :: exn + result \<times> event list)" by simp
  show ?thesis
    using loop_events [where a = "snd (resume papers ckpt)" and b = "length papers" and w = w
        and st = "\<lparr>df = fst (resume papers ckpt), checkpoint_file = ckpt, events = []\<rparr>",
        OF process_paper_proc_quiet resume_start_le] t
    by (auto simp: main_def main_with_unfold)
qed

lemma no_multiple_between:
  assumes B: "0 < (B::nat)" and k: "r < k" "k < r + (B - r mod B)"
  shows "k mod B \<noteq> 0"
proof
  assume z: "k mod B = 0"
  have r: "B * (r div B) + r mod B = r" by (rule mult_div_mod_eq)
  have lt: "r mod B < B" using B by simp
  have kk: "B * (k div B) = k" using z mult_div_mod_eq [of B k] by simp
  have "r div B < k div B"
  proof (rule ccontr)
    assume "\<not> r div B < k div B"
    then have "k div B \<le> r div B" by simp
    then have "B * (k div B) \<le> B * (r div B)" by simp
    then have "k \<le> r" using kk r by linarith
    then show False using k(1) by simp
  qed
  then have "Suc (r div B) \<le> k div B" by simp
  then have "B * Suc (r div B) \<le> B * (k div B)" by (rule mult_le_mono2)
  then have "B * (r div B) + B \<le> k" using kk by simp
  then show False using k(2) r lt by linarith
qed

lemma first_multiple:
  assumes B: "0 < (B::nat)" and n: "r + (B - r mod B) \<le> n"
  shows "filter (\<lambda>k. k mod B = 0) [Suc r..<Suc n] =
           (r + (B - r mod B)) # filter (\<lambda>k. k mod B = 0) [Suc (r + (B - r mod B))..<Suc n]"
proof -
  let ?m = "r + (B - r mod B)"
  have lt: "r mod B < B" using B by simp
  then have rm: "r < ?m" by simp
  have r: "B * (r div B) + r mod B = r" by (rule mult_div_mod_eq)
  have "?m = B * (r div B) + B" using r lt by linarith
  then have "?m = B * Suc (r div B)" by simp
  then have m0: "?m mod B = 0" by (metis mod_mult_self1_is_0)
  have "[Suc r..<?m + (Suc n - ?m)] = [Suc r..<?m] @ [?m..<?m + (Suc n - ?m)]"
    using rm by (intro upt_add_eq_append) simp
  moreover have "?m + (Suc n - ?m) = Suc n" using n by simp
  ultimately have "[Suc r..<Suc n] = [Suc r..<?m] @ [?m..<Suc n]" by simp
  also have "[?m..<Suc n] = ?m # [Suc ?m..<Suc n]" using n by (simp add: upt_conv_Cons)
  finally have s: "[Suc r..<Suc n] = [Suc r..<?m] @ ?m # [Suc ?m..<Suc n]" .
  have "\<forall>k\<in>set [Suc r..<?m]. \<not> k mod B = 0"
  proof
    fix k
    assume "k \<in> set [Suc r..<?m]"
    then have "r < k" "k < ?m" by simp_all
    then show "\<not> k mod B = 0" by (rule no_multiple_between [OF B])
  qed
  then have f0: "filter (\<lambda>k. k mod B = 0) [Suc r..<?m] = []"
    unfolding filter_empty_conv .
  have "filter (\<lambda>k. k mod B = 0) [Suc r..<Suc n] =
        filter (\<lambda>k. k mod B = 0) [Suc r..<?m] @
        filter (\<lambda>k. k mod B = 0) (?m # [Suc ?m..<Suc n])"
    by (simp only: s filter_append)
  also have "\<dots> = ?m # filter (\<lambda>k. k mod B = 0) [Suc ?m..<Suc n]"
    using m0 by (simp only: f0 filter.simps append_Nil refl if_True)
  finally show ?thesis .
qed

lemma map_Link_update:
  "map Link (d[i := (d ! i)\<lparr>Abstract := x, Keywords := y\<rparr>]) = map Link d"
proof (rule nth_equalityI)
  show "length (map Link (d[i := (d ! i)\<lparr>Abstract := x, Keywords := y\<rparr>])) = length (map Link d)"
    by simp
next
  fix j
  assume "j < length (map Link (d[i := (d ! i)\<lparr>Abstract := x, Keywords := y\<rparr>]))"
  then have j: "j < length d" by simp
  show "map Link (d[i := (d ! i)\<lparr>Abstract := x, Keywords := y\<rparr>]) ! j = map Link d ! j"
    using j by (cases "j = i") simp_all
qed

lemma iteration_links: "map Link (df (iteration proc w i st)) = map Link (df st)"
  by (simp add: iteration_def Let_def map_Link_update split: sum.splits prod.splits option.splits)

lemma loop_links: "map Link (df (fold (iteration proc w) [a..<b] st)) = map Link (df st)"
proof (induction b)
  case 0
  show ?case by simp
next
  case (Suc b)
  show ?case by (cases "a \<le> b") (simp_all add: iteration_links Suc)
qed

lemma iteration_written:
  assumes "\<forall>r res ev. proc r = Inr (res, ev) \<longrightarrow> list_all quiet ev"
    and "f \<in> set (written (events (iteration proc w i st)))"
  shows "f \<in> set (written (events st)) \<or> f = to_csv (df (iteration proc w i st))"
proof (cases "proc (df st ! i)")
  case (Inl e)
  then show ?thesis using assms(2) by (simp add: iteration_def Let_def written_append)
next
  case (Inr x)
  obtain res ev where x: "x = (res, ev)" by (cases x)
  have "list_all quiet ev" using assms(1) Inr x by blast
  then have "written ev = []" by (rule written_quiet)
  then show ?thesis
    using assms(2) Inr x
    by (auto simp: iteration_def Let_def written_append split: option.splits if_splits)
qed

lemma to_csv_links: "map fst (to_csv d) = map (\<lambda>r. csv_field (Link r)) d"
  by (simp add: to_csv_def)

lemma loop_written:
  assumes q: "\<forall>r res ev. proc r = Inr (res, ev) \<longrightarrow> list_all quiet ev"
  shows "f \<in> set (written (events (fold (iteration proc w) [a..<b] st))) \<Longrightarrow>
         f \<in> set (written (events st)) \<or>
         map fst f = map csv_field (map Link (df st))"
proof (induction b)
  case 0
  then show ?case by simp
next
  case (Suc b)
  show ?case
  proof (cases "a \<le> b")
    case True
    let ?s = "fold (iteration proc w) [a..<b] st"
    have "f \<in> set (written (events (iteration proc w b ?s)))" using Suc.prems True by simp
    then have "f \<in> set (written (events ?s)) \<or> f = to_csv (df (iteration proc w b ?s))"
      by (rule iteration_written [OF q])
    then show ?thesis
    proof
      assume "f \<in> set (written (events ?s))"
      then show ?thesis by (rule Suc.IH)
    next
      assume "f = to_csv (df (iteration proc w b ?s))"
      then have "map fst f = map csv_field (map Link (df (iteration proc w b ?s)))"
        by (simp add: to_csv_links)
      then show ?thesis by (simp add: iteration_links loop_links)
    qed
  next
    case False
    then show ?thesis using Suc.prems by simp
  qed
qed

lemma resume_links: "map Link (fst (resume papers ckpt)) = map fst papers"
proof (rule nth_equalityI)
  show "length (map Link (fst (resume papers ckpt))) = length (map fst papers)"
    by (simp add: resume_length)
next
  fix i
  assume "i < length (map Link (fst (resume papers ckpt)))"
  then have i: "i < length papers" by (simp add: resume_length)
  then show "map Link (fst (resume papers ckpt)) ! i = map fst papers ! i"
    by (cases ckpt) (simp_all add: resume_length resume_row resume_fresh_row)
qed

section \<open>Resuming and checkpointing\<close>

lemma parse_paper_link: "parse_field (paper_link i) = Str (paper_link i)"
  by (simp add: parse_field_def paper_link_def na_values_def py_def)

lemma paper_link_inj: "paper_link i = paper_link j \<Longrightarrow> i = j"
  by (simp add: paper_link_def replicate_eq_replicate)

lemma length_papers_upto: "length (papers_upto n) = n"
  by (simp add: papers_upto_def)


lemma distinct_papers_upto: "distinct (map fst (papers_upto n))"
proof -
  have "inj_on (\<lambda>i. Str (paper_link i)) (set [0..<n])"
    by (rule inj_onI) (simp add: paper_link_inj)
  then have "distinct (map (\<lambda>i. Str (paper_link i)) [0..<n])"
    by (simp add: distinct_map)
  then show ?thesis by (simp add: papers_upto_def comp_def)
qed

lemma aligned_checkpoint_upto: "aligned (checkpoint_upto m n) (papers_upto n)"
  by (simp add: aligned_def checkpoint_upto_def papers_upto_def parse_paper_link comp_def)

lemma parse_Done: "parse_field (py ''Done'') = Str (py ''Done'')" "parse_field [] = NaN"
  by (simp_all add: parse_field_def na_values_def py_def)

lemma covers_first_checkpoint_upto:
  assumes "m \<le> n"
  shows "covers_first m (checkpoint_upto m n)"
proof -
  have "map (\<lambda>c. notna (parse_field (fst (snd c)))) (checkpoint_upto m n) =
        replicate m True @ replicate (n - m) False"
  proof (rule nth_equalityI)
    show "length (map (\<lambda>c. notna (parse_field (fst (snd c)))) (checkpoint_upto m n)) =
          length (replicate m True @ replicate (n - m) False)"
      using assms by (simp add: checkpoint_upto_def)
  next
    fix i
    assume "i < length (map (\<lambda>c. notna (parse_field (fst (snd c)))) (checkpoint_upto m n))"
    then have i: "i < n" by (simp add: checkpoint_upto_def)
    show "map (\<lambda>c. notna (parse_field (fst (snd c)))) (checkpoint_upto m n) ! i =
          (replicate m True @ replicate (n - m) False) ! i"
      using i assms by (simp add: checkpoint_upto_def nth_append parse_Done)
  qed
  then show ?thesis using assms by (simp add: covers_first_def checkpoint_upto_def)
qed






lemma main_written:
  "list_all (\<lambda>f. map fst f = map (\<lambda>p. csv_field (fst p)) papers)
     (written (events (main w papers ckpt)))"
proof -
  have "map fst f = map (\<lambda>p. csv_field (fst p)) papers"
    if "f \<in> set (written (events (main w papers ckpt)))" for f
  proof -
    have "f \<in> set (written []) \<or>
          map fst f = map csv_field (map Link (fst (resume papers ckpt)))"
      using loop_written [OF process_paper_proc_quiet, of f w w "snd (resume papers ckpt)"
          "length papers" "\<lparr>df = fst (resume papers ckpt), checkpoint_file = ckpt, events = []\<rparr>"]
        that
      by (simp add: main_def main_with_unfold)
    then show ?thesis by (simp add: resume_links comp_def)
  qed
  then show ?thesis by (simp add: list_all_iff)
qed




text \<open>
  C2, as stated: in a run resumed at index \<open>r > 0\<close> the first checkpoint is written
  after 50 papers processed in that run. With 50 papers of which the checkpoint covers
  the first 30, the run resumes at 30 and writes its only checkpoint after 20 papers:
  the test is on the position \<open>i + 1\<close>, not on the number of papers of the run.
\<close>

theorem first_write_after_twenty_papers:
  "snd (resume (papers_upto 50) (Some (checkpoint_upto 30 50))) = 30 \<and>
   write_points 0 (events (main world_down (papers_upto 50) (Some (checkpoint_upto 30 50)))) = [20]"
proof -
  have s: "snd (resume (papers_upto 50) (Some (checkpoint_upto 30 50))) = 30"
    by (rule resume_covers_first)
       (simp_all add: aligned_checkpoint_upto distinct_papers_upto covers_first_checkpoint_upto)
  have "filter (\<lambda>k. k mod BATCH_SIZE = 0) [Suc 30..<Suc 50] =
        (30 + (BATCH_SIZE - 30 mod BATCH_SIZE)) #
        filter (\<lambda>k. k mod BATCH_SIZE = 0) [Suc (30 + (BATCH_SIZE - 30 mod BATCH_SIZE))..<Suc 50]"
    by (rule first_multiple) (simp_all add: BATCH_SIZE_def)
  then have "filter (\<lambda>k. k mod BATCH_SIZE = 0) [Suc 30..<Suc 50] = [50]"
    by (simp add: BATCH_SIZE_def)
  then show ?thesis by (simp add: main_write_points s length_papers_upto)
qed

text \<open>
  C2, amended: the checkpoint is written after the paper at index \<open>i\<close> exactly when
  \<open>i + 1\<close> is a multiple of 50, counted from the start of the frame. So a run resumed at
  \<open>r\<close> writes its checkpoints after \<open>k - r\<close> papers of the run, for the multiples \<open>k\<close> of
  50 above \<open>r\<close>, and the first of them after \<open>50 - r mod 50\<close> papers (50 when \<open>r\<close> is a
  multiple of 50). Every frame passed to \<open>to_csv\<close> has the rows of all papers from index
  0, and a write that succeeds replaces the checkpoint file, whatever it held; at the
  other indices the file is left as it is.
\<close>

theorem checkpoint_at_multiples_of_batch_size:
  "write_points 0 (events (main w papers ckpt)) =
     map (\<lambda>k. k - snd (resume papers ckpt))
       (filter (\<lambda>k. k mod BATCH_SIZE = 0) [Suc (snd (resume papers ckpt))..<Suc (length papers)]) \<and>
   (snd (resume papers ckpt) + (BATCH_SIZE - snd (resume papers ckpt) mod BATCH_SIZE) \<le> length papers \<longrightarrow>
      write_points 0 (events (main w papers ckpt)) \<noteq> [] \<and>
      hd (write_points 0 (events (main w papers ckpt))) =
        BATCH_SIZE - snd (resume papers ckpt) mod BATCH_SIZE) \<and>
   list_all (\<lambda>f. map fst f = map (\<lambda>p. csv_field (fst p)) papers)
     (written (events (main w papers ckpt))) \<and>
   ((i + 1) mod BATCH_SIZE = 0 \<and> csv_write w (i + 1) = None \<longrightarrow>
      checkpoint_file (iteration (\<lambda>r. Inr (process_paper w r)) w i st) =
        Some (to_csv (df (iteration (\<lambda>r. Inr (process_paper w r)) w i st)))) \<and>
   ((i + 1) mod BATCH_SIZE \<noteq> 0 \<longrightarrow>
      checkpoint_file (iteration (\<lambda>r. Inr (process_paper w r)) w i st) = checkpoint_file st)"
proof -
  let ?r = "snd (resume papers ckpt)"
  have 1: "write_points 0 (events (main w papers ckpt)) =
     map (\<lambda>k. k - ?r) (filter (\<lambda>k. k mod BATCH_SIZE = 0) [Suc ?r..<Suc (length papers)])"
    by (rule main_write_points)
  have 2: "write_points 0 (events (main w papers ckpt)) \<noteq> [] \<and>
      hd (write_points 0 (events (main w papers ckpt))) = BATCH_SIZE - ?r mod BATCH_SIZE"
    if "?r + (BATCH_SIZE - ?r mod BATCH_SIZE) \<le> length papers"
  proof -
    have "0 < BATCH_SIZE" by (simp add: BATCH_SIZE_def)
    from first_multiple [OF this that] show ?thesis by (simp only: 1) simp
  qed
  have 3: "list_all (\<lambda>f. map fst f = map (\<lambda>p. csv_field (fst p)) papers)
     (written (events (main w papers ckpt)))"
    by (rule main_written)
  have 4: "checkpoint_file (iteration (\<lambda>r. Inr (process_paper w r)) w i st) =
        Some (to_csv (df (iteration (\<lambda>r. Inr (process_paper w r)) w i st)))"
    if "(i + 1) mod BATCH_SIZE = 0 \<and> csv_write w (i + 1) = None"
    using that by (simp add: iteration_def Let_def split: prod.splits)
  have 5: "checkpoint_file (iteration (\<lambda>r. Inr (process_paper w r)) w i st) = checkpoint_file st"
    if "(i + 1) mod BATCH_SIZE \<noteq> 0"
    using that by (simp add: iteration_def Let_def split: prod.splits)
  show ?thesis using 1 2 3 4 5 by blast
qed

theorem checkpoint_at_multiples_of_batch_size_witness:
  "write_points 0 (events (main world_down (papers_upto 120) None)) = [50, 100] \<and>
   hd (write_points 0 (events (main world_down (papers_upto 120) (Some (checkpoint_upto 70 120))))) = 30 \<and>
   checkpoint_file (iteration (\<lambda>r. Inr (process_paper world_down r)) world_down 49
       \<lparr>df = fst (resume (papers_upto 120) None), checkpoint_file = None, events = []\<rparr>) =
     Some (to_csv (df (iteration (\<lambda>r. Inr (process_paper world_down r)) world_down 49
       \<lparr>df = fst (resume (papers_upto 120) None), checkpoint_file = None, events = []\<rparr>))) \<and>
   checkpoint_file (iteration (\<lambda>r. Inr (process_paper world_down r)) world_down 7
       \<lparr>df = fst (resume (papers_upto 120) None), checkpoint_file = None, events = []\<rparr>) = None"
proof -
  let ?st = "\<lparr>df = fst (resume (papers_upto 120) None), checkpoint_file = None, events = []\<rparr>"
  have r0: "snd (resume (papers_upto 120) None) = 0" by (simp add: resume_def)
  have r70: "snd (resume (papers_upto 120) (Some (checkpoint_upto 70 120))) = 70"
    by (rule resume_covers_first)
       (simp_all add: aligned_checkpoint_upto distinct_papers_upto covers_first_checkpoint_upto)
  have f0: "filter (\<lambda>k. k mod BATCH_SIZE = 0) [Suc 0..<Suc 120] = [50, 100]"
  proof -
    have "filter (\<lambda>k. k mod BATCH_SIZE = 0) [Suc 0..<Suc 120] =
        (0 + (BATCH_SIZE - 0 mod BATCH_SIZE)) #
        filter (\<lambda>k. k mod BATCH_SIZE = 0) [Suc (0 + (BATCH_SIZE - 0 mod BATCH_SIZE))..<Suc 120]"
      by (rule first_multiple) (simp_all add: BATCH_SIZE_def)
    moreover have "filter (\<lambda>k. k mod BATCH_SIZE = 0) [Suc 50..<Suc 120] =
        (50 + (BATCH_SIZE - 50 mod BATCH_SIZE)) #
        filter (\<lambda>k. k mod BATCH_SIZE = 0) [Suc (50 + (BATCH_SIZE - 50 mod BATCH_SIZE))..<Suc 120]"
      by (rule first_multiple) (simp_all add: BATCH_SIZE_def)
    moreover have "filter (\<lambda>k. k mod BATCH_SIZE = 0) [Suc 100..<Suc 120] = []"
      by (auto simp: filter_empty_conv BATCH_SIZE_def)
    ultimately show ?thesis by (simp add: BATCH_SIZE_def del: upt_Suc)
  qed
  have h: "snd (resume (papers_upto 120) (Some (checkpoint_upto 70 120))) +
      (BATCH_SIZE - snd (resume (papers_upto 120) (Some (checkpoint_upto 70 120))) mod BATCH_SIZE)
      \<le> length (papers_upto 120)"
    by (simp add: r70 BATCH_SIZE_def length_papers_upto)
  have w49: "(49 + 1) mod BATCH_SIZE = 0 \<and> csv_write world_down (49 + 1) = None"
    by (simp add: BATCH_SIZE_def world_down_def)
  have w7: "(7 + 1) mod BATCH_SIZE \<noteq> 0" by (simp add: BATCH_SIZE_def)
  have a: "write_points 0 (events (main world_down (papers_upto 120) None)) = [50, 100]"
    using checkpoint_at_multiples_of_batch_size
      [of world_down "papers_upto 120" None, unfolded r0 length_papers_upto f0]
    by simp
  have "hd (write_points 0 (events (main world_down (papers_upto 120)
      (Some (checkpoint_upto 70 120))))) =
      BATCH_SIZE - snd (resume (papers_upto 120) (Some (checkpoint_upto 70 120))) mod BATCH_SIZE"
    using h checkpoint_at_multiples_of_batch_size
      [of world_down "papers_upto 120" "Some (checkpoint_upto 70 120)"]
    by blast
  then have b: "hd (write_points 0 (events (main world_down (papers_upto 120)
      (Some (checkpoint_upto 70 120))))) = 30"
    by (simp add: r70 BATCH_SIZE_def)
  have c: "checkpoint_file (iteration (\<lambda>r. Inr (process_paper world_down r)) world_down 49 ?st) =
     Some (to_csv (df (iteration (\<lambda>r. Inr (process_paper world_down r)) world_down 49 ?st)))"
    by (rule checkpoint_at_multiples_of_batch_size [of world_down "papers_upto 120" None 49 ?st,
          THEN conjunct2, THEN conjunct2, THEN conjunct2, THEN conjunct1, THEN mp, OF w49])
  have "checkpoint_file (iteration (\<lambda>r. Inr (process_paper world_down r)) world_down 7 ?st) =
      checkpoint_file ?st"
    by (rule checkpoint_at_multiples_of_batch_size [of world_down "papers_upto 120" None 7 ?st,
          THEN conjunct2, THEN conjunct2, THEN conjunct2, THEN conjunct2, THEN mp, OF w7])
  then have d: "checkpoint_file (iteration (\<lambda>r. Inr (process_paper world_down r)) world_down 7 ?st) =
      None"
    by simp
  show ?thesis using a b c d by blast
qed

section \<open>Exceptions in the loop, and the summary\<close>

lemma main_with_length: "length (df (main_with proc w papers ckpt)) = length papers"
  by (simp add: main_with_unfold loop_length resume_length)





lemma papers_upto_2:
  "papers_upto 2 = [(Str (paper_link 0), Str []), (Str (paper_link 1), Str [])]"
  by (simp add: papers_upto_def upt_rec)

lemma paper_link_0_1: "paper_link 0 \<noteq> paper_link 1"
  using paper_link_inj [of 0 1] by auto

lemma resume_gap:
  "resume (papers_upto 2) (Some checkpoint_gap) =
     ([\<lparr>Link = Str (paper_link 0), DOI = Str [], Abstract = NaN, Keywords = NaN\<rparr>,
       \<lparr>Link = Str (paper_link 1), DOI = Str [], Abstract = Str (py ''Done''), Keywords = NaN\<rparr>],
      1)"
  using paper_link_0_1
  by (simp add: resume_def papers_upto_2 checkpoint_gap_def read_csv_def merge_left_def
      parse_paper_link parse_Done Let_def)

lemma process_paper_down:
  "process_paper world_down \<lparr>Link = Str (paper_link i), DOI = Str [], Abstract = a, Keywords = k\<rparr> =
     (\<lparr>r_Abstract = [], r_Keywords = [], r_Status = Failed\<rparr>,
      [Get (paper_link i) 15, Log ERROR (Scopus_error (paper_link i) (HTTPError 404))])"
proof -
  have "paper_link i \<noteq> []" by (simp add: paper_link_def py_def)
  then show ?thesis
    by (simp add: process_paper_def doi_fallback_def extract_from_scopus_def world_down_def)
qed

lemma main_gap:
  "df (main world_down (papers_upto 2) (Some checkpoint_gap)) =
     [\<lparr>Link = Str (paper_link 0), DOI = Str [], Abstract = NaN, Keywords = NaN\<rparr>,
      \<lparr>Link = Str (paper_link 1), DOI = Str [], Abstract = Str [], Keywords = Str []\<rparr>]"
proof -
  have u: "[1..<2] = [1::nat]" by (simp add: upt_rec)
  show ?thesis
    by (simp add: main_def main_with_def resume_gap u iteration_def Let_def process_paper_down
        BATCH_SIZE_def)
qed

lemma scale_numeral:
  "scale (numeral a) (numeral b) k =
     (if (2::nat) ^ 52 * numeral b \<le> numeral a * 2 ^ k then k
      else scale (numeral a) (numeral b) (Suc k))"
  by (subst scale.simps) simp

lemma scale_one:
  "scale (Suc 0) (numeral b) k =
     (if (2::nat) ^ 52 * numeral b \<le> 2 ^ k then k else scale (Suc 0) (numeral b) (Suc k))"
  by (subst scale.simps) simp

lemma format_2f_examples:
  "format_2f (rate 1 2) = py ''50.00''" "format_2f (rate 2 3) = py ''66.67''"
  "format_2f (rate 23 160) = py ''14.37''"
  by (simp_all add: format_2f_def rate_def fl_def round_ratio_def Let_def py_def scale_numeral
      scale_one)

text \<open>
  C9, at a resumed run: the reported success count is the number of records whose
  abstract is non-empty. With two papers, a checkpoint in which the first has no
  abstract and the second has one, and every request failing, the run resumes at index
  1 and reprocesses the second paper, which fails; no record has an abstract in the
  output. The first abstract is still the \<open>NaN\<close> of the merge, which \<open>astype(bool)\<close>
  counts as true: the summary reports 1 success of 2 and a rate of 50.00 percent.
\<close>

theorem report_counts_blank_abstract:
  "report (df (main world_down (papers_upto 2) (Some checkpoint_gap))) = (2, 1, py ''50.00%'') \<and>
   filter nonempty (map Abstract (df (main world_down (papers_upto 2) (Some checkpoint_gap)))) = []"
proof -
  let ?d = "df (main world_down (papers_upto 2) (Some checkpoint_gap))"
  have l: "length ?d = 2" by (simp add: main_gap)
  have c: "success_count ?d = 1" by (simp add: main_gap success_count_def)
  have "report ?d = (2, 1, format_2f (rate 1 2) @ py ''%'')"
    by (simp only: report_def success_rate_def l c) simp
  then have "report ?d = (2, 1, py ''50.00%'')"
    by (simp only: format_2f_examples) (simp add: py_def)
  moreover have "filter nonempty (map Abstract ?d) = []" by (simp add: main_gap)
  ultimately show ?thesis by simp
qed

text \<open>
  The scenario of the specification: abstracts non-empty, non-empty, empty give a success
  count of 2 of 3 and the printed rate 66.67 percent; and on a frame whose abstracts are
  all strings the success count is the number of non-empty abstracts.
\<close>

lemma report_two_of_three:
  "report [\<lparr>Link = l1, DOI = d1, Abstract = Str (py ''One''), Keywords = k1\<rparr>,
           \<lparr>Link = l2, DOI = d2, Abstract = Str (py ''Two''), Keywords = k2\<rparr>,
           \<lparr>Link = l3, DOI = d3, Abstract = Str [], Keywords = k3\<rparr>] =
     (3, 2, py ''66.67%'')"
proof -
  let ?d = "[\<lparr>Link = l1, DOI = d1, Abstract = Str (py ''One''), Keywords = k1\<rparr>,
           \<lparr>Link = l2, DOI = d2, Abstract = Str (py ''Two''), Keywords = k2\<rparr>,
           \<lparr>Link = l3, DOI = d3, Abstract = Str [], Keywords = k3\<rparr>]"
  have l: "length ?d = 3" by simp
  have c: "success_count ?d = 2" by (simp add: success_count_def py_def)
  have "report ?d = (3, 2, format_2f (rate 2 3) @ py ''%'')"
    by (simp only: report_def success_rate_def l c) simp
  then show ?thesis by (simp only: format_2f_examples) (simp add: py_def)
qed

lemma success_count_strings:
  "list_all notna (map Abstract d) \<Longrightarrow>
   success_count d = length (filter nonempty (map Abstract d))"
proof -
  assume "list_all notna (map Abstract d)"
  then have "\<forall>c\<in>set (map Abstract d). truthy c = nonempty c"
    by (auto simp: list_all_iff elim!: notna.elims)
  then have "filter truthy (map Abstract d) = filter nonempty (map Abstract d)"
    by (intro filter_cong) auto
  then show ?thesis by (simp only: success_count_def)
qed

end
